theory Spec2Isabelle
  imports Main
begin

section \<open>Double hashing with Brent's variation (src/hash.py)\<close>

subsection \<open>Python primitives used by the table\<close>

text \<open>
  The exceptions the primitives of \<^verbatim>\<open>hash.py\<close> can raise: \<^verbatim>\<open>%\<close> with a zero
  divisor, list indexing out of range, attribute access on \<^verbatim>\<open>None\<close>, and arithmetic
  on a \<^verbatim>\<open>None\<close> key.
\<close>

datatype error = ZeroDivisionError | IndexError | AttributeError | TypeError

text \<open>Python's \<^verbatim>\<open>a % b\<close> on integers: floor modulus, raising on \<open>b = 0\<close>.\<close>

definition py_mod :: "int \<Rightarrow> int \<Rightarrow> error + int" where
  "py_mod a b = (if b = 0 then Inl ZeroDivisionError else Inr (a mod b))"

text \<open>Python's \<^verbatim>\<open>xs[i]\<close>: an index below zero counts from the end of the list.\<close>

definition get_item :: "'a list \<Rightarrow> int \<Rightarrow> error + 'a" where
  "get_item xs i =
     (if 0 \<le> i \<and> i < int (length xs) then Inr (xs ! nat i)
      else if i < 0 \<and> - int (length xs) \<le> i then Inr (xs ! nat (int (length xs) + i))
      else Inl IndexError)"

text \<open>Python's \<^verbatim>\<open>xs[i] = x\<close>.\<close>

definition set_item :: "'a list \<Rightarrow> int \<Rightarrow> 'a \<Rightarrow> error + 'a list" where
  "set_item xs i x =
     (if 0 \<le> i \<and> i < int (length xs) then Inr (xs[nat i := x])
      else if i < 0 \<and> - int (length xs) \<le> i then Inr (xs[nat (int (length xs) + i) := x])
      else Inl IndexError)"

text \<open>Python's \<^verbatim>\<open>range(a, b)\<close>, as the list of its elements.\<close>

definition range_py :: "int \<Rightarrow> int \<Rightarrow> int list" where
  "range_py a b = [a..b - 1]"

subsection \<open>Data\<close>

text \<open>
  A \<^verbatim>\<open>HashEntry\<close> has a key and a value; \<^verbatim>\<open>HashEntry.delete\<close> sets both to
  \<^verbatim>\<open>None\<close>, so the key is an optional integer. A value is any Python object, \<^verbatim>\<open>None\<close>
  included: \<open>None\<close> of the option type stands for Python's \<^verbatim>\<open>None\<close>.
\<close>

datatype 'v HashEntry = HashEntry (key: "int option") (val: "'v option")

definition entry_delete :: "'v HashEntry \<Rightarrow> 'v HashEntry" where
  "entry_delete e = HashEntry None None"

text \<open>
  A \<^verbatim>\<open>HashTable\<close> object: the list \<^verbatim>\<open>table\<close> of \<^verbatim>\<open>None\<close> or \<^verbatim>\<open>HashEntry\<close>, and the
  attribute \<^verbatim>\<open>_m\<close> (here \<open>cap_m\<close>).
\<close>

record 'v HashTable =
  table :: "'v HashEntry option list"
  cap_m :: int

definition HashTable_init :: "int \<Rightarrow> 'v HashTable" where
  "HashTable_init sz = \<lparr>table = replicate (nat sz) None, cap_m = sz\<rparr>"

subsection \<open>Hash functions and slot tests\<close>

definition hk :: "int \<Rightarrow> int \<Rightarrow> error + int" where
  "hk k m = (if m = 0 then Inr 0 else py_mod k m)"

definition hk2 :: "int \<Rightarrow> int \<Rightarrow> error + int" where
  "hk2 k m =
     (if m = 2 then Inr 0
      else case py_mod k (m - 2) of Inl e \<Rightarrow> Inl e | Inr r \<Rightarrow> Inr (1 + r))"

text \<open>
  The probe position \<^verbatim>\<open>(self.hk(key, self._m) - i * self.hk2(key, self._m)) % self._m\<close>
  computed at the head of every loop body.
\<close>

definition probe :: "int \<Rightarrow> int \<Rightarrow> int \<Rightarrow> error + int" where
  "probe k m i =
     (case hk k m of Inl e \<Rightarrow> Inl e
      | Inr a \<Rightarrow> (case hk2 k m of Inl e \<Rightarrow> Inl e
          | Inr b \<Rightarrow> py_mod (a - i * b) m))"

definition is_empty_ht :: "'v HashTable \<Rightarrow> int \<Rightarrow> error + bool" where
  "is_empty_ht s index =
     (case get_item (table s) index of Inl e \<Rightarrow> Inl e
      | Inr x \<Rightarrow> Inr (x = None))"

definition is_free :: "'v HashTable \<Rightarrow> int \<Rightarrow> error + bool" where
  "is_free s index =
     (case is_empty_ht s index of Inl e \<Rightarrow> Inl e
      | Inr b \<Rightarrow>
          if b then Inr True
          else (case get_item (table s) index of Inl e \<Rightarrow> Inl e
            | Inr None \<Rightarrow> Inl AttributeError
            | Inr (Some ent) \<Rightarrow> Inr (key ent = None)))"

text \<open>
  \<^verbatim>\<open>set_key_value\<close> stores a new entry in an empty slot and overwrites the two
  attributes of the entry of any other slot.
\<close>

definition set_key_value ::
  "'v HashTable \<Rightarrow> int \<Rightarrow> int option \<Rightarrow> 'v option \<Rightarrow> error + 'v HashTable" where
  "set_key_value s index k v =
     (case is_empty_ht s index of Inl e \<Rightarrow> Inl e
      | Inr b \<Rightarrow>
          if b then
            (case set_item (table s) index (Some (HashEntry k v)) of Inl e \<Rightarrow> Inl e
             | Inr t \<Rightarrow> Inr (s\<lparr>table := t\<rparr>))
          else
            (case get_item (table s) index of Inl e \<Rightarrow> Inl e
             | Inr None \<Rightarrow> Inl AttributeError
             | Inr (Some ent) \<Rightarrow>
                 (case set_item (table s) index (Some (HashEntry k (val ent))) of Inl e \<Rightarrow> Inl e
                  | Inr t \<Rightarrow>
                     (case set_item t index (Some (HashEntry k v)) of Inl e \<Rightarrow> Inl e
                      | Inr t' \<Rightarrow> Inr (s\<lparr>table := t'\<rparr>)))))"

text \<open>The key and the value read from a slot: \<^verbatim>\<open>self.table[index].key\<close> and \<^verbatim>\<open>.value\<close>.\<close>

definition slot_key :: "'v HashTable \<Rightarrow> int \<Rightarrow> error + int option" where
  "slot_key s index =
     (case get_item (table s) index of Inl e \<Rightarrow> Inl e
      | Inr None \<Rightarrow> Inl AttributeError
      | Inr (Some ent) \<Rightarrow> Inr (key ent))"

definition slot_value :: "'v HashTable \<Rightarrow> int \<Rightarrow> error + 'v option" where
  "slot_value s index =
     (case get_item (table s) index of Inl e \<Rightarrow> Inl e
      | Inr None \<Rightarrow> Inl AttributeError
      | Inr (Some ent) \<Rightarrow> Inr (val ent))"

text \<open>
  \<^verbatim>\<open>hk2\<close> applied to a key read from a slot: \<open>m = 2\<close> is tested before the key is
  used, and \<^verbatim>\<open>None % n\<close> is a TypeError.
\<close>

definition hk2_of :: "int option \<Rightarrow> int \<Rightarrow> error + int" where
  "hk2_of ko m =
     (if m = 2 then Inr 0
      else case ko of None \<Rightarrow> Inl TypeError | Some k \<Rightarrow> hk2 k m)"

subsection \<open>The operations\<close>

text \<open>
  The loop of \<^verbatim>\<open>insert\<close> over the remaining values of \<open>i\<close>. The result is the table
  and the returned index; \<open>- 1\<close> is the initial \<^verbatim>\<open>hash_end\<close>.
\<close>

fun insert_loop ::
  "'v HashTable \<Rightarrow> int \<Rightarrow> 'v option \<Rightarrow> int list \<Rightarrow> error + ('v HashTable \<times> int)" where
  "insert_loop s k v [] = Inr (s, - 1)"
| "insert_loop s k v (i # rest) =
     (case probe k (cap_m s) i of Inl e \<Rightarrow> Inl e
      | Inr h \<Rightarrow>
         (case is_free s h of Inl e \<Rightarrow> Inl e
          | Inr f \<Rightarrow>
             if f then
               (case set_key_value s h (Some k) v of Inl e \<Rightarrow> Inl e
                | Inr s' \<Rightarrow> Inr (s', h))
             else
               (case slot_key s h of Inl e \<Rightarrow> Inl e
                | Inr ko \<Rightarrow>
                   if ko = Some k then Inr (s, - 1)
                   else insert_loop s k v rest)))"

definition insert_ht :: "'v HashTable \<Rightarrow> int \<Rightarrow> 'v option \<Rightarrow> error + ('v HashTable \<times> int)" where
  "insert_ht s k v = insert_loop s k v (range_py 0 (cap_m s))"

fun insert_brent_loop ::
  "'v HashTable \<Rightarrow> int \<Rightarrow> 'v option \<Rightarrow> int list \<Rightarrow> error + ('v HashTable \<times> int)" where
  "insert_brent_loop s k v [] = Inr (s, - 1)"
| "insert_brent_loop s k v (i # rest) =
     (case probe k (cap_m s) i of Inl e \<Rightarrow> Inl e
      | Inr h \<Rightarrow>
     (case is_free s h of Inl e \<Rightarrow> Inl e
      | Inr f \<Rightarrow>
         if f then
           (case set_key_value s h (Some k) v of Inl e \<Rightarrow> Inl e
            | Inr s' \<Rightarrow> Inr (s', h))
         else
     (case slot_key s h of Inl e \<Rightarrow> Inl e
      | Inr ko \<Rightarrow>
         if ko = Some k then Inr (s, - 1)
         else
     (case hk2 k (cap_m s) of Inl e \<Rightarrow> Inl e
      | Inr b \<Rightarrow>
     (case py_mod (h - b) (cap_m s) of Inl e \<Rightarrow> Inl e
      | Inr h1 \<Rightarrow>
     (case is_free s h1 of Inl e \<Rightarrow> Inl e
      | Inr f1 \<Rightarrow>
         if f1 then
           (case set_key_value s h1 (Some k) v of Inl e \<Rightarrow> Inl e
            | Inr s' \<Rightarrow> Inr (s', h1))
         else
     (case hk2_of ko (cap_m s) of Inl e \<Rightarrow> Inl e
      | Inr c \<Rightarrow>
     (case py_mod (h - c) (cap_m s) of Inl e \<Rightarrow> Inl e
      | Inr h2 \<Rightarrow>
     (case is_free s h2 of Inl e \<Rightarrow> Inl e
      | Inr f2 \<Rightarrow>
         if f2 then
           (case slot_value s h of Inl e \<Rightarrow> Inl e
            | Inr vo \<Rightarrow>
           (case set_key_value s h2 ko vo of Inl e \<Rightarrow> Inl e
            | Inr s1 \<Rightarrow>
           (case set_key_value s1 h (Some k) v of Inl e \<Rightarrow> Inl e
            | Inr s2 \<Rightarrow> Inr (s2, h))))
         else insert_brent_loop s k v rest)))))))))"

definition insert_brent ::
  "'v HashTable \<Rightarrow> int \<Rightarrow> 'v option \<Rightarrow> error + ('v HashTable \<times> int)" where
  "insert_brent s k v = insert_brent_loop s k v (range_py 0 (cap_m s))"

text \<open>
  The loop of \<^verbatim>\<open>get_position\<close>: a free slot is skipped, a slot with the key ends the
  loop, any other slot falls through to the next \<open>i\<close>.
\<close>

fun get_position_loop :: "'v HashTable \<Rightarrow> int \<Rightarrow> int list \<Rightarrow> error + int" where
  "get_position_loop s k [] = Inr (- 1)"
| "get_position_loop s k (i # rest) =
     (case probe k (cap_m s) i of Inl e \<Rightarrow> Inl e
      | Inr h \<Rightarrow>
         (case is_free s h of Inl e \<Rightarrow> Inl e
          | Inr f \<Rightarrow>
             if f then get_position_loop s k rest
             else
               (case slot_key s h of Inl e \<Rightarrow> Inl e
                | Inr ko \<Rightarrow>
                   if ko = Some k then Inr h
                   else get_position_loop s k rest)))"

definition get_position :: "'v HashTable \<Rightarrow> int \<Rightarrow> error + int" where
  "get_position s k = get_position_loop s k (range_py 0 (cap_m s))"

text \<open>\<^verbatim>\<open>retrieve\<close> assigns nothing; it returns the value object or \<^verbatim>\<open>None\<close>.\<close>

definition retrieve :: "'v HashTable \<Rightarrow> int \<Rightarrow> error + 'v option" where
  "retrieve s k =
     (case get_position s k of Inl e \<Rightarrow> Inl e
      | Inr h \<Rightarrow> if h = - 1 then Inr None else slot_value s h)"

definition delete :: "'v HashTable \<Rightarrow> int \<Rightarrow> error + ('v HashTable \<times> int)" where
  "delete s k =
     (case get_position s k of Inl e \<Rightarrow> Inl e
      | Inr h \<Rightarrow>
         if h = - 1 then Inr (s, - 1)
         else
           (case get_item (table s) h of Inl e \<Rightarrow> Inl e
            | Inr None \<Rightarrow> Inl AttributeError
            | Inr (Some ent) \<Rightarrow>
               (case set_item (table s) h (Some (entry_delete ent)) of Inl e \<Rightarrow> Inl e
                | Inr t \<Rightarrow> Inr (s\<lparr>table := t\<rparr>, h))))"


subsection \<open>Sequences of calls\<close>

text \<open>
  A call of one of the four public methods, and what it returns: an index (or \<open>- 1\<close>)
  for the two insertions and for \<^verbatim>\<open>delete\<close>, a value object (or \<^verbatim>\<open>None\<close>) for
  \<^verbatim>\<open>retrieve\<close>.
\<close>

datatype 'v operation =
  Insert int "'v option" | Insert_brent int "'v option" | Retrieve int | Delete int

datatype 'v outcome = Index int | Value "'v option"

fun apply_op :: "'v HashTable \<Rightarrow> 'v operation \<Rightarrow> error + ('v HashTable \<times> 'v outcome)" where
  "apply_op s (Insert k v) =
     (case insert_ht s k v of Inl e \<Rightarrow> Inl e | Inr (s', r) \<Rightarrow> Inr (s', Index r))"
| "apply_op s (Insert_brent k v) =
     (case insert_brent s k v of Inl e \<Rightarrow> Inl e | Inr (s', r) \<Rightarrow> Inr (s', Index r))"
| "apply_op s (Retrieve k) =
     (case retrieve s k of Inl e \<Rightarrow> Inl e | Inr x \<Rightarrow> Inr (s, Value x))"
| "apply_op s (Delete k) =
     (case delete s k of Inl e \<Rightarrow> Inl e | Inr (s', r) \<Rightarrow> Inr (s', Index r))"

text \<open>A sequence of calls on one table stops at the first exception.\<close>

fun run :: "'v HashTable \<Rightarrow> 'v operation list \<Rightarrow> error + ('v HashTable \<times> 'v outcome list)" where
  "run s [] = Inr (s, [])"
| "run s (c # cs) =
     (case apply_op s c of Inl e \<Rightarrow> Inl e
      | Inr (s', r) \<Rightarrow>
         (case run s' cs of Inl e \<Rightarrow> Inl e
          | Inr (s'', rs) \<Rightarrow> Inr (s'', r # rs)))"

text \<open>The failure value of each method: \<open>- 1\<close>, or \<^verbatim>\<open>None\<close> for \<^verbatim>\<open>retrieve\<close>.\<close>

fun failure :: "'v operation \<Rightarrow> 'v outcome" where
  "failure (Retrieve k) = Value None"
| "failure c = Index (- 1)"

subsection \<open>Values computed on a well-formed table\<close>

text \<open>
  The constructor makes \<^verbatim>\<open>table\<close> a list of \<^verbatim>\<open>_m\<close> slots (of none when \<^verbatim>\<open>_m\<close> is
  negative), and no method changes the length of the list or \<^verbatim>\<open>_m\<close>.
\<close>

definition well_formed :: "'v HashTable \<Rightarrow> bool" where
  "well_formed s \<longleftrightarrow> length (table s) = nat (cap_m s)"

text \<open>The values of \<^verbatim>\<open>hk\<close>, \<^verbatim>\<open>hk2\<close> and of the probe position where nothing is raised.\<close>

definition hk_val :: "int \<Rightarrow> int \<Rightarrow> int" where
  "hk_val k m = (if m = 0 then 0 else k mod m)"

definition hk2_val :: "int \<Rightarrow> int \<Rightarrow> int" where
  "hk2_val k m = (if m = 2 then 0 else 1 + k mod (m - 2))"

definition pos :: "int \<Rightarrow> int \<Rightarrow> int \<Rightarrow> int" where
  "pos k m i = (hk_val k m - i * hk2_val k m) mod m"

text \<open>\<^verbatim>\<open>(hash - self.hk2(k, self._m)) % self._m\<close>, the two alternatives of \<^verbatim>\<open>insert_brent\<close>.\<close>

definition step_back :: "int \<Rightarrow> int \<Rightarrow> int \<Rightarrow> int" where
  "step_back h k m = (h - hk2_val k m) mod m"

definition free_slot :: "'v HashEntry option \<Rightarrow> bool" where
  "free_slot x = (case x of None \<Rightarrow> True | Some ent \<Rightarrow> key ent = None)"

text \<open>The slot \<open>x\<close> is in use with key \<open>k\<close>.\<close>

definition holds :: "int \<Rightarrow> 'v HashEntry option \<Rightarrow> bool" where
  "holds k x = (case x of None \<Rightarrow> False | Some ent \<Rightarrow> key ent = Some k)"

definition put :: "'v HashTable \<Rightarrow> int \<Rightarrow> int option \<Rightarrow> 'v option \<Rightarrow> 'v HashTable" where
  "put s h ko v = s\<lparr>table := (table s)[nat h := Some (HashEntry ko v)]\<rparr>"

text \<open>Some slot of the table is in use with key \<open>k\<close>.\<close>

definition key_present :: "'v HashTable \<Rightarrow> int \<Rightarrow> bool" where
  "key_present s k = (\<exists>x \<in> set (table s). holds k x)"

subsection \<open>The table as the specification describes it\<close>

text \<open>
  The specification speaks of slots that are Empty, Tombstone or Occupied with a key and
  a value. \<open>slot_of\<close> reads a slot of the list that way: \<^verbatim>\<open>None\<close> is Empty, an entry
  whose key is \<^verbatim>\<open>None\<close> is a Tombstone.
\<close>

datatype 'v slot = Empty | Tombstone | Occupied int "'v option"

definition slot_of :: "'v HashEntry option \<Rightarrow> 'v slot" where
  "slot_of x =
     (case x of None \<Rightarrow> Empty
      | Some ent \<Rightarrow> (case key ent of None \<Rightarrow> Tombstone | Some k \<Rightarrow> Occupied k (val ent)))"

definition slots :: "'v HashTable \<Rightarrow> 'v slot list" where
  "slots s = map slot_of (table s)"

fun spec_free :: "'v slot \<Rightarrow> bool" where
  "spec_free Empty = True"
| "spec_free Tombstone = True"
| "spec_free (Occupied k v) = False"

fun spec_has_key :: "int \<Rightarrow> 'v slot \<Rightarrow> bool" where
  "spec_has_key k (Occupied k' v) = (k' = k)"
| "spec_has_key k Empty = False"
| "spec_has_key k Tombstone = False"

fun spec_value :: "'v slot \<Rightarrow> 'v option" where
  "spec_value (Occupied k v) = v"
| "spec_value Empty = None"
| "spec_value Tombstone = None"

definition NOT_FOUND :: int where
  "NOT_FOUND = - 1"

text \<open>
  The hash functions and the probe sequence in the specification's words:
  \<open>h1(k,m) = k mod m\<close>, \<open>h2(k,m) = 1 + (k mod (m-2))\<close>, defined as 0 when \<open>m = 2\<close>, and
  \<open>pos(k,i) = (h1(k,m) - i * h2(k,m)) mod m\<close>. (For \<open>m = 1\<close> every position is 0
  whatever \<open>h2\<close> is, and for \<open>m \<le> 0\<close> there is no attempt.)
\<close>

definition spec_h1 :: "int \<Rightarrow> int \<Rightarrow> int" where
  "spec_h1 k m = k mod m"

definition spec_h2 :: "int \<Rightarrow> int \<Rightarrow> int" where
  "spec_h2 k m = (if m = 2 then 0 else 1 + (k mod (m - 2)))"

definition spec_pos :: "int \<Rightarrow> int \<Rightarrow> int \<Rightarrow> int" where
  "spec_pos k m i = (spec_h1 k m - i * spec_h2 k m) mod m"

text \<open>
  Plain insertion as specified: the first attempt \<open>i\<close> of \<open>0 .. m-1\<close> whose slot is free
  or holds the key decides; a free slot receives the entry and its index is returned, a
  slot with the key gives NOT_FOUND, and so does the end of the attempts.
\<close>

definition spec_insert :: "'v slot list \<Rightarrow> int \<Rightarrow> int \<Rightarrow> 'v option \<Rightarrow> 'v slot list \<times> int" where
  "spec_insert t m k v =
     (case find (\<lambda>i. spec_free (t ! nat (spec_pos k m i)) \<or>
                      spec_has_key k (t ! nat (spec_pos k m i))) [0..m - 1] of
        None \<Rightarrow> (t, NOT_FOUND)
      | Some i \<Rightarrow>
          if spec_free (t ! nat (spec_pos k m i))
          then (t[nat (spec_pos k m i) := Occupied k v], spec_pos k m i)
          else (t, NOT_FOUND))"

text \<open>
  Insertion with Brent's variation as specified, attempt by attempt: a free slot at
  \<open>hash\<close> takes the entry; the key at \<open>hash\<close> gives NOT_FOUND; else a free \<open>alt1\<close> takes
  the entry; else a free \<open>alt2\<close> takes the occupant of \<open>hash\<close> and \<open>hash\<close> takes the
  entry; else the next attempt follows.
\<close>

fun spec_brent_steps ::
  "'v slot list \<Rightarrow> int \<Rightarrow> int \<Rightarrow> 'v option \<Rightarrow> int list \<Rightarrow> 'v slot list \<times> int" where
  "spec_brent_steps t m k v [] = (t, NOT_FOUND)"
| "spec_brent_steps t m k v (i # rest) =
     (let hash = spec_pos k m i in
      case t ! nat hash of
        Empty \<Rightarrow> (t[nat hash := Occupied k v], hash)
      | Tombstone \<Rightarrow> (t[nat hash := Occupied k v], hash)
      | Occupied existing w \<Rightarrow>
          if existing = k then (t, NOT_FOUND)
          else
            let alt1 = (hash - spec_h2 k m) mod m in
            if spec_free (t ! nat alt1) then (t[nat alt1 := Occupied k v], alt1)
            else
              let alt2 = (hash - spec_h2 existing m) mod m in
              if spec_free (t ! nat alt2)
              then (t[nat alt2 := Occupied existing w, nat hash := Occupied k v], hash)
              else spec_brent_steps t m k v rest)"

definition spec_insert_brent ::
  "'v slot list \<Rightarrow> int \<Rightarrow> int \<Rightarrow> 'v option \<Rightarrow> 'v slot list \<times> int" where
  "spec_insert_brent t m k v = spec_brent_steps t m k v [0..m - 1]"

text \<open>
  Lookup as specified: the first attempt whose slot is Occupied with the key gives the
  index; free slots and slots of other keys are passed over; no match gives NOT_FOUND.
\<close>

definition spec_get_position :: "'v slot list \<Rightarrow> int \<Rightarrow> int \<Rightarrow> int" where
  "spec_get_position t m k =
     (case find (\<lambda>i. spec_has_key k (t ! nat (spec_pos k m i))) [0..m - 1] of
        None \<Rightarrow> NOT_FOUND
      | Some i \<Rightarrow> spec_pos k m i)"

definition spec_retrieve :: "'v slot list \<Rightarrow> int \<Rightarrow> int \<Rightarrow> 'v option" where
  "spec_retrieve t m k =
     (if spec_get_position t m k = NOT_FOUND then None
      else spec_value (t ! nat (spec_get_position t m k)))"

definition spec_delete :: "'v slot list \<Rightarrow> int \<Rightarrow> int \<Rightarrow> 'v slot list \<times> int" where
  "spec_delete t m k =
     (if spec_get_position t m k = NOT_FOUND then (t, NOT_FOUND)
      else (t[nat (spec_get_position t m k) := Tombstone], spec_get_position t m k))"

text \<open>
  Every Occupied slot lies on the probe sequence of its own key: its index is
  \<open>spec_pos k m i\<close> for an attempt \<open>i\<close> of \<open>0 .. m-1\<close>.
\<close>

definition on_probe_sequence :: "'v slot list \<Rightarrow> int \<Rightarrow> bool" where
  "on_probe_sequence t m =
     (\<forall>p \<in> set [0..m - 1].
        case t ! nat p of
          Occupied k v \<Rightarrow> (\<exists>i \<in> set [0..m - 1]. p = spec_pos k m i)
        | Empty \<Rightarrow> True
        | Tombstone \<Rightarrow> True)"

text \<open>Every key of an Occupied slot is found by \<^verbatim>\<open>get_position\<close>, in a slot that holds it.\<close>

definition keys_retrievable :: "'v HashTable \<Rightarrow> bool" where
  "keys_retrievable s =
     (\<forall>p \<in> set [0..cap_m s - 1].
        case slots s ! nat p of
          Occupied k v \<Rightarrow>
            (case get_position s k of
               Inl e \<Rightarrow> False
             | Inr q \<Rightarrow> q \<noteq> NOT_FOUND \<and> spec_has_key k (slots s ! nat q))
        | Empty \<Rightarrow> True
        | Tombstone \<Rightarrow> True)"

text \<open>The key \<open>k\<close> is stored, and stored with the value \<^verbatim>\<open>None\<close> wherever it is stored.\<close>

definition stored_with_None :: "'v HashTable \<Rightarrow> int \<Rightarrow> bool" where
  "stored_with_None s k =
     (key_present s k \<and> (\<forall>x \<in> set (table s). holds k x \<longrightarrow> val (the x) = None))"

text \<open>
  The same invariant on the list of entries, with the positions the code computes; it is
  the form carried through the loops.
\<close>

definition probe_inv :: "'v HashTable \<Rightarrow> bool" where
  "probe_inv s \<longleftrightarrow>
     well_formed s \<and>
     (\<forall>n < length (table s). \<forall>k. holds k (table s ! n) \<longrightarrow>
        (\<exists>i. 0 \<le> i \<and> i < cap_m s \<and> int n = pos k (cap_m s) i))"

section \<open>Properties\<close>

subsection \<open>The primitives on a well-formed table\<close>

lemma hk_eq: "hk k m = Inr (hk_val k m)"
  by (simp add: hk_def hk_val_def py_mod_def)

lemma hk2_eq: "hk2 k m = Inr (hk2_val k m)"
  by (simp add: hk2_def hk2_val_def py_mod_def)

lemma hk2_of_eq: "hk2_of (Some k) m = Inr (hk2_val k m)"
  by (simp add: hk2_of_def hk2_eq hk2_val_def)

lemma probe_eq: "0 < m \<Longrightarrow> probe k m i = Inr (pos k m i)"
  by (simp add: probe_def hk_eq hk2_eq py_mod_def pos_def)

lemma pos_range: "0 < m \<Longrightarrow> 0 \<le> pos k m i \<and> pos k m i < m"
  by (simp add: pos_def)

lemma step_back_range: "0 < m \<Longrightarrow> 0 \<le> step_back h k m \<and> step_back h k m < m"
  by (simp add: step_back_def)

lemma range_py_nil: "m \<le> 0 \<Longrightarrow> range_py 0 m = []"
  by (simp add: range_py_def)

lemma is_free_eq:
  "well_formed s \<Longrightarrow> 0 \<le> h \<Longrightarrow> h < cap_m s \<Longrightarrow> is_free s h = Inr (free_slot (table s ! nat h))"
  by (auto simp: well_formed_def is_free_def is_empty_ht_def get_item_def free_slot_def
      split: option.splits)

lemma slot_key_eq:
  "well_formed s \<Longrightarrow> 0 \<le> h \<Longrightarrow> h < cap_m s \<Longrightarrow> \<not> free_slot (table s ! nat h) \<Longrightarrow>
   slot_key s h = Inr (key (the (table s ! nat h)))"
  by (auto simp: well_formed_def slot_key_def get_item_def free_slot_def split: option.splits)

lemma slot_value_eq:
  "well_formed s \<Longrightarrow> 0 \<le> h \<Longrightarrow> h < cap_m s \<Longrightarrow> \<not> free_slot (table s ! nat h) \<Longrightarrow>
   slot_value s h = Inr (val (the (table s ! nat h)))"
  by (auto simp: well_formed_def slot_value_def get_item_def free_slot_def split: option.splits)

lemma set_key_value_eq:
  "well_formed s \<Longrightarrow> 0 \<le> h \<Longrightarrow> h < cap_m s \<Longrightarrow> set_key_value s h ko v = Inr (put s h ko v)"
  by (auto simp: well_formed_def set_key_value_def is_empty_ht_def get_item_def set_item_def
      put_def split: option.splits)

lemma well_formed_put: "well_formed s \<Longrightarrow> well_formed (put s h ko v)"
  by (simp add: well_formed_def put_def)

lemma cap_m_put: "cap_m (put s h ko v) = cap_m s"
  by (simp add: put_def)

lemma length_put: "length (table (put s h ko v)) = length (table s)"
  by (simp add: put_def)

lemma not_free_key: "\<not> free_slot x \<Longrightarrow> \<exists>e. key (the x) = Some e"
  by (auto simp: free_slot_def split: option.splits)

lemma holds_iff: "holds k x \<longleftrightarrow> \<not> free_slot x \<and> key (the x) = Some k"
  by (auto simp: holds_def free_slot_def split: option.splits)

subsection \<open>One iteration of each loop\<close>

lemma insert_loop_step:
  assumes "well_formed s" "0 < cap_m s"
  shows "insert_loop s k v (i # rest) =
     (if free_slot (table s ! nat (pos k (cap_m s) i))
      then Inr (put s (pos k (cap_m s) i) (Some k) v, pos k (cap_m s) i)
      else if holds k (table s ! nat (pos k (cap_m s) i)) then Inr (s, - 1)
      else insert_loop s k v rest)"
  using assms pos_range [OF assms(2), of k i]
  by (simp add: probe_eq is_free_eq slot_key_eq set_key_value_eq holds_iff)

lemma get_position_loop_step:
  assumes "well_formed s" "0 < cap_m s"
  shows "get_position_loop s k (i # rest) =
     (if holds k (table s ! nat (pos k (cap_m s) i)) then Inr (pos k (cap_m s) i)
      else get_position_loop s k rest)"
  using assms pos_range [OF assms(2), of k i]
  by (simp add: probe_eq is_free_eq slot_key_eq holds_iff)

lemma insert_brent_loop_step:
  assumes "well_formed s" "0 < cap_m s"
  shows "insert_brent_loop s k v (i # rest) =
     (let h = pos k (cap_m s) i; x = table s ! nat h in
      if free_slot x then Inr (put s h (Some k) v, h)
      else if holds k x then Inr (s, - 1)
      else if free_slot (table s ! nat (step_back h k (cap_m s)))
      then Inr (put s (step_back h k (cap_m s)) (Some k) v, step_back h k (cap_m s))
      else if free_slot (table s ! nat (step_back h (the (key (the x))) (cap_m s)))
      then Inr (put (put s (step_back h (the (key (the x))) (cap_m s)) (key (the x)) (val (the x)))
                  h (Some k) v, h)
      else insert_brent_loop s k v rest)"
proof -
  let ?m = "cap_m s"
  let ?h = "pos k ?m i"
  let ?x = "table s ! nat ?h"
  have hr: "0 \<le> ?h" "?h < ?m" using pos_range [OF assms(2), of k i] by simp_all
  show ?thesis
  proof (cases "free_slot ?x")
    case True
    then show ?thesis using assms hr
      by (simp add: probe_eq is_free_eq set_key_value_eq Let_def)
  next
    case False
    then obtain e where e: "key (the ?x) = Some e" using not_free_key by blast
    have r1: "0 \<le> step_back ?h k ?m" "step_back ?h k ?m < ?m"
      and r2: "0 \<le> step_back ?h e ?m" "step_back ?h e ?m < ?m"
      using step_back_range [OF assms(2)] by simp_all
    have m1: "py_mod (?h - hk2_val k ?m) ?m = Inr (step_back ?h k ?m)"
      and m2: "py_mod (?h - hk2_val e ?m) ?m = Inr (step_back ?h e ?m)"
      using assms(2) by (simp_all add: py_mod_def step_back_def)
    show ?thesis using assms hr False e r1 r2
      by (simp add: probe_eq is_free_eq slot_key_eq slot_value_eq set_key_value_eq hk2_eq
          hk2_of_eq m1 m2 well_formed_put cap_m_put Let_def holds_iff)
  qed
qed

subsection \<open>Every loop returns, and keeps the table well formed\<close>

lemma insert_loop_result:
  assumes "well_formed s" "0 < cap_m s"
  shows "\<exists>s' r. insert_loop s k v js = Inr (s', r) \<and> well_formed s' \<and> cap_m s' = cap_m s \<and>
           length (table s') = length (table s) \<and> (r = - 1 \<longrightarrow> s' = s)"
proof (induction js)
  case Nil
  show ?case using assms by simp
next
  case (Cons j js)
  show ?case using assms Cons pos_range [OF assms(2), of k j]
    by (auto simp: insert_loop_step well_formed_put cap_m_put length_put
        simp del: insert_loop.simps)
qed

lemma insert_brent_loop_result:
  assumes "well_formed s" "0 < cap_m s"
  shows "\<exists>s' r. insert_brent_loop s k v js = Inr (s', r) \<and> well_formed s' \<and> cap_m s' = cap_m s \<and>
           length (table s') = length (table s) \<and> (r = - 1 \<longrightarrow> s' = s)"
proof (induction js)
  case Nil
  show ?case using assms by simp
next
  case (Cons j js)
  have "0 \<le> pos k (cap_m s) j" using pos_range [OF assms(2)] by simp
  moreover have "0 \<le> step_back (pos k (cap_m s) j) k (cap_m s)"
    using step_back_range [OF assms(2)] by simp
  ultimately show ?case using assms Cons
    by (auto simp: insert_brent_loop_step well_formed_put cap_m_put length_put Let_def
        simp del: insert_brent_loop.simps)
qed

lemma get_position_loop_result:
  assumes "well_formed s" "0 < cap_m s"
  shows "\<exists>r. get_position_loop s k js = Inr r \<and>
           (r = - 1 \<or> 0 \<le> r \<and> r < cap_m s \<and> holds k (table s ! nat r))"
proof (induction js)
  case Nil
  show ?case by simp
next
  case (Cons j js)
  show ?case using assms Cons pos_range [OF assms(2), of k j]
    by (auto simp: get_position_loop_step simp del: get_position_loop.simps)
qed

lemma insert_ht_result:
  assumes "well_formed s"
  shows "\<exists>s' r. insert_ht s k v = Inr (s', r) \<and> well_formed s' \<and> cap_m s' = cap_m s \<and>
           length (table s') = length (table s) \<and> (r = - 1 \<longrightarrow> s' = s)"
proof (cases "0 < cap_m s")
  case True
  then show ?thesis unfolding insert_ht_def using assms by (rule_tac insert_loop_result)
next
  case False
  then show ?thesis using assms by (simp add: insert_ht_def range_py_nil)
qed

lemma insert_brent_result:
  assumes "well_formed s"
  shows "\<exists>s' r. insert_brent s k v = Inr (s', r) \<and> well_formed s' \<and> cap_m s' = cap_m s \<and>
           length (table s') = length (table s) \<and> (r = - 1 \<longrightarrow> s' = s)"
proof (cases "0 < cap_m s")
  case True
  then show ?thesis unfolding insert_brent_def using assms by (rule_tac insert_brent_loop_result)
next
  case False
  then show ?thesis using assms by (simp add: insert_brent_def range_py_nil)
qed

lemma get_position_result:
  assumes "well_formed s"
  shows "\<exists>r. get_position s k = Inr r \<and>
           (r = - 1 \<or> 0 \<le> r \<and> r < cap_m s \<and> holds k (table s ! nat r))"
proof (cases "0 < cap_m s")
  case True
  then show ?thesis unfolding get_position_def using assms by (rule_tac get_position_loop_result)
next
  case False
  then show ?thesis by (simp add: get_position_def range_py_nil)
qed

lemma holds_value:
  "well_formed s \<Longrightarrow> 0 \<le> r \<Longrightarrow> r < cap_m s \<Longrightarrow> holds k (table s ! nat r) \<Longrightarrow>
   slot_value s r = Inr (val (the (table s ! nat r)))"
  by (simp add: slot_value_eq holds_iff)

lemma holds_get_item:
  "well_formed s \<Longrightarrow> 0 \<le> r \<Longrightarrow> r < cap_m s \<Longrightarrow> holds k (table s ! nat r) \<Longrightarrow>
   \<exists>ent. get_item (table s) r = Inr (Some ent)"
  by (auto simp: get_item_def well_formed_def holds_def split: option.splits)

lemma set_item_eq:
  "well_formed s \<Longrightarrow> 0 \<le> r \<Longrightarrow> r < cap_m s \<Longrightarrow> set_item (table s) r x = Inr ((table s)[nat r := x])"
  by (auto simp: set_item_def well_formed_def)

lemma retrieve_eq:
  assumes "well_formed s" "get_position s k = Inr r"
  shows "retrieve s k = Inr (if r = - 1 then None else val (the (table s ! nat r)))"
  using assms get_position_result [OF assms(1), of k]
  by (auto simp: retrieve_def holds_value)

lemma delete_eq:
  assumes "well_formed s" "get_position s k = Inr r"
  shows "delete s k =
     Inr (if r = - 1 then (s, - 1) else (s\<lparr>table := (table s)[nat r := Some (HashEntry None None)]\<rparr>, r))"
proof (cases "r = - 1")
  case True
  then show ?thesis using assms by (simp add: delete_def)
next
  case False
  then have r: "0 \<le> r" "r < cap_m s" "holds k (table s ! nat r)"
    using assms get_position_result [OF assms(1), of k] by auto
  obtain ent where "get_item (table s) r = Inr (Some ent)"
    using holds_get_item [OF assms(1) r] by blast
  then show ?thesis using assms False r
    by (simp add: delete_def set_item_eq entry_delete_def)
qed

lemma delete_result:
  assumes "well_formed s"
  shows "\<exists>s' r. delete s k = Inr (s', r) \<and> well_formed s' \<and> cap_m s' = cap_m s \<and>
           length (table s') = length (table s) \<and> (r = - 1 \<longrightarrow> s' = s)"
proof -
  obtain r where "get_position s k = Inr r" using get_position_result [OF assms] by blast
  then show ?thesis using assms by (auto simp: delete_eq well_formed_def)
qed

lemma retrieve_result: "well_formed s \<Longrightarrow> \<exists>x. retrieve s k = Inr x"
  using get_position_result [of s k] by (auto simp: retrieve_eq)

lemma apply_op_result:
  assumes "well_formed s"
  shows "\<exists>s' r. apply_op s c = Inr (s', r) \<and> well_formed s' \<and> cap_m s' = cap_m s"
proof (cases c)
  case (Insert k v)
  then show ?thesis using insert_ht_result [OF assms, of k v] by auto
next
  case (Insert_brent k v)
  then show ?thesis using insert_brent_result [OF assms, of k v] by auto
next
  case (Retrieve k)
  then show ?thesis using retrieve_result [OF assms, of k] assms by auto
next
  case (Delete k)
  then show ?thesis using delete_result [OF assms, of k] by auto
qed

lemma run_result:
  "well_formed s \<Longrightarrow>
   \<exists>s' rs. run s cs = Inr (s', rs) \<and> well_formed s' \<and> cap_m s' = cap_m s \<and> length rs = length cs"
proof (induction cs arbitrary: s)
  case Nil
  then show ?case by simp
next
  case (Cons c cs)
  obtain s1 r where 1: "apply_op s c = Inr (s1, r)" "well_formed s1" "cap_m s1 = cap_m s"
    using apply_op_result [OF Cons.prems] by blast
  obtain s2 rs where "run s1 cs = Inr (s2, rs)" "well_formed s2" "cap_m s2 = cap_m s1"
      "length rs = length cs"
    using Cons.IH [OF 1(2)] by blast
  then show ?case using 1 by simp
qed

lemma well_formed_init: "well_formed (HashTable_init m)"
  by (simp add: well_formed_def HashTable_init_def)

lemma apply_op_unusable: "cap_m s \<le> 0 \<Longrightarrow> apply_op s c = Inr (s, failure c)"
  by (cases c)
     (simp_all add: insert_ht_def insert_brent_def retrieve_def delete_def get_position_def
        range_py_nil)

lemma run_unusable: "cap_m s \<le> 0 \<Longrightarrow> run s cs = Inr (s, map failure cs)"
  by (induction cs) (simp_all add: apply_op_unusable)

lemma absent_get_position:
  assumes "well_formed s" "\<not> key_present s k"
  shows "get_position s k = Inr (- 1)"
proof -
  obtain r where r: "get_position s k = Inr r"
      "r = - 1 \<or> 0 \<le> r \<and> r < cap_m s \<and> holds k (table s ! nat r)"
    using get_position_result [OF assms(1)] by blast
  have "r = - 1"
  proof (rule ccontr)
    assume "r \<noteq> - 1"
    then have "nat r < length (table s)" "holds k (table s ! nat r)"
      using r(2) assms(1) by (auto simp: well_formed_def)
    then have "key_present s k" unfolding key_present_def using nth_mem by blast
    then show False using assms(2) by simp
  qed
  then show ?thesis using r(1) by simp
qed

subsection \<open>The list of entries and the slots of the specification\<close>

lemma spec_pos_eq: "m \<noteq> 0 \<Longrightarrow> spec_pos k m i = pos k m i"
  by (simp add: spec_pos_def pos_def spec_h1_def spec_h2_def hk_val_def hk2_val_def)

lemma spec_step_eq: "(h - spec_h2 k m) mod m = step_back h k m"
  by (simp add: step_back_def spec_h2_def hk2_val_def)

lemma spec_free_slot_of: "spec_free (slot_of x) = free_slot x"
  by (simp add: slot_of_def free_slot_def split: option.splits)

lemma spec_has_key_slot_of: "spec_has_key k (slot_of x) = holds k x"
  by (simp add: slot_of_def holds_def split: option.splits)

lemma slots_nth: "n < length (table s) \<Longrightarrow> slots s ! n = slot_of (table s ! n)"
  by (simp add: slots_def)

lemma slots_at:
  "well_formed s \<Longrightarrow> 0 \<le> h \<Longrightarrow> h < cap_m s \<Longrightarrow> slots s ! nat h = slot_of (table s ! nat h)"
  by (simp add: slots_nth well_formed_def)

lemma slots_put: "slots (put s h (Some k) v) = (slots s)[nat h := Occupied k v]"
  by (simp add: slots_def put_def map_update slot_of_def)

lemma slots_at_pos:
  "well_formed s \<Longrightarrow> 0 < cap_m s \<Longrightarrow>
   slots s ! nat (pos k (cap_m s) i) = slot_of (table s ! nat (pos k (cap_m s) i))"
  using pos_range [of "cap_m s" k i] by (simp add: slots_at)

lemma get_position_loop_find:
  assumes "well_formed s" "0 < cap_m s"
  shows "get_position_loop s k js =
     Inr (case find (\<lambda>i. spec_has_key k (slots s ! nat (spec_pos k (cap_m s) i))) js of
            None \<Rightarrow> NOT_FOUND | Some i \<Rightarrow> spec_pos k (cap_m s) i)"
proof (induction js)
  case Nil
  show ?case by (simp add: NOT_FOUND_def)
next
  case (Cons j js)
  show ?case using assms Cons
    by (simp add: get_position_loop_step spec_pos_eq slots_at_pos spec_has_key_slot_of
        del: get_position_loop.simps)
qed

lemma get_position_spec:
  assumes "well_formed s"
  shows "get_position s k = Inr (spec_get_position (slots s) (cap_m s) k)"
proof (cases "0 < cap_m s")
  case True
  then show ?thesis using assms
    by (simp add: get_position_def spec_get_position_def range_py_def get_position_loop_find)
next
  case False
  then show ?thesis
    by (simp add: get_position_def spec_get_position_def range_py_def NOT_FOUND_def)
qed

lemma insert_loop_find:
  assumes "well_formed s" "0 < cap_m s"
  shows "\<exists>s'. insert_loop s k v js =
       Inr (s', snd (case find (\<lambda>i. spec_free (slots s ! nat (spec_pos k (cap_m s) i)) \<or>
                      spec_has_key k (slots s ! nat (spec_pos k (cap_m s) i))) js of
        None \<Rightarrow> (slots s, NOT_FOUND)
      | Some i \<Rightarrow>
          if spec_free (slots s ! nat (spec_pos k (cap_m s) i))
          then ((slots s)[nat (spec_pos k (cap_m s) i) := Occupied k v], spec_pos k (cap_m s) i)
          else (slots s, NOT_FOUND))) \<and>
     slots s' = fst (case find (\<lambda>i. spec_free (slots s ! nat (spec_pos k (cap_m s) i)) \<or>
                      spec_has_key k (slots s ! nat (spec_pos k (cap_m s) i))) js of
        None \<Rightarrow> (slots s, NOT_FOUND)
      | Some i \<Rightarrow>
          if spec_free (slots s ! nat (spec_pos k (cap_m s) i))
          then ((slots s)[nat (spec_pos k (cap_m s) i) := Occupied k v], spec_pos k (cap_m s) i)
          else (slots s, NOT_FOUND)) \<and>
     cap_m s' = cap_m s"
proof (induction js)
  case Nil
  show ?case by (simp add: NOT_FOUND_def)
next
  case (Cons j js)
  show ?case using assms Cons
    by (auto simp: insert_loop_step spec_pos_eq slots_at_pos spec_has_key_slot_of
        spec_free_slot_of slots_put cap_m_put NOT_FOUND_def
        simp del: insert_loop.simps)
qed

lemma slot_of_free: "free_slot x \<Longrightarrow> slot_of x = Empty \<or> slot_of x = Tombstone"
  by (auto simp: slot_of_def free_slot_def split: option.splits)

lemma slot_of_used:
  "\<not> free_slot x \<Longrightarrow> slot_of x = Occupied (the (key (the x))) (val (the x))"
  by (auto simp: slot_of_def free_slot_def split: option.splits)

lemma slots_put_key:
  "key (the x) = Some e \<Longrightarrow>
   slots (put s h (key (the x)) w) = (slots s)[nat h := Occupied e w]"
  by (simp add: slots_put)

lemma insert_brent_loop_spec:
  assumes "well_formed s" "0 < cap_m s"
  shows "\<exists>s'. insert_brent_loop s k v js =
            Inr (s', snd (spec_brent_steps (slots s) (cap_m s) k v js)) \<and>
          slots s' = fst (spec_brent_steps (slots s) (cap_m s) k v js) \<and>
          cap_m s' = cap_m s"
proof (induction js)
  case Nil
  show ?case by (simp add: NOT_FOUND_def)
next
  case (Cons j js)
  let ?m = "cap_m s"
  let ?h = "pos k ?m j"
  let ?x = "table s ! nat ?h"
  have m0: "?m \<noteq> 0" using assms(2) by simp
  have at_h: "slots s ! nat ?h = slot_of ?x" using assms by (rule slots_at_pos)
  show ?case
  proof (cases "free_slot ?x")
    case True
    then have "slot_of ?x = Empty \<or> slot_of ?x = Tombstone" by (rule slot_of_free)
    then show ?thesis using assms True at_h m0
      by (auto simp: insert_brent_loop_step spec_pos_eq slots_put cap_m_put Let_def
          simp del: insert_brent_loop.simps)
  next
    case False
    then obtain e where e: "key (the ?x) = Some e" using not_free_key by blast
    have used: "slot_of ?x = Occupied e (val (the ?x))"
      using slot_of_used [OF False] e by simp
    have hk: "holds k ?x \<longleftrightarrow> e = k" using False e by (simp add: holds_iff)
    have r1: "0 \<le> step_back ?h k ?m" "step_back ?h k ?m < ?m"
      and r2: "0 \<le> step_back ?h e ?m" "step_back ?h e ?m < ?m"
      using step_back_range [OF assms(2)] by simp_all
    have a1: "slots s ! nat (step_back ?h k ?m) = slot_of (table s ! nat (step_back ?h k ?m))"
      using assms(1) r1 by (rule slots_at)
    have a2: "slots s ! nat (step_back ?h e ?m) = slot_of (table s ! nat (step_back ?h e ?m))"
      using assms(1) r2 by (rule slots_at)
    have two: "slots (put (put s (step_back ?h e ?m) (key (the ?x)) (val (the ?x))) ?h (Some k) v) =
        (slots s)[nat (step_back ?h e ?m) := Occupied e (val (the ?x)), nat ?h := Occupied k v]"
      using e by (simp add: slots_put)
    show ?thesis using assms False Cons m0 e
      by (simp add: insert_brent_loop_step spec_pos_eq Let_def at_h used hk spec_step_eq a1 a2
          spec_free_slot_of slots_put two cap_m_put NOT_FOUND_def
          del: insert_brent_loop.simps)
  qed
qed

subsection \<open>Entries stay on the probe sequence of their key\<close>

lemma step_back_pos: "step_back (pos k m i) k m = pos k m (i + 1)"
  by (simp add: step_back_def pos_def mod_diff_left_eq algebra_simps)

lemma pos_wrap: "pos k m m = pos k m 0"
proof -
  have "(hk_val k m - m * hk2_val k m) mod m = hk_val k m mod m"
    by (metis mod_diff_right_eq mod_mult_self1_is_0 diff_zero)
  then show ?thesis by (simp add: pos_def)
qed

lemma step_back_on_sequence:
  assumes "0 \<le> i" "i < m"
  shows "\<exists>j. 0 \<le> j \<and> j < m \<and> step_back (pos k m i) k m = pos k m j"
proof (cases "i + 1 < m")
  case True
  then show ?thesis using assms step_back_pos [of k m i] by (intro exI [of _ "i + 1"]) simp
next
  case False
  then have "i + 1 = m" using assms by simp
  then have "step_back (pos k m i) k m = pos k m 0"
    using step_back_pos [of k m i] pos_wrap [of k m] by simp
  then show ?thesis using assms by (intro exI [of _ 0]) simp
qed

lemma probe_inv_init: "probe_inv (HashTable_init m)"
  by (simp add: probe_inv_def well_formed_init) (simp add: HashTable_init_def holds_def)

lemma probe_inv_put:
  assumes "probe_inv s" "0 \<le> i" "i < cap_m s" "h = pos k (cap_m s) i"
  shows "probe_inv (put s h (Some k) v)"
proof -
  have w: "well_formed s" using assms(1) by (simp add: probe_inv_def)
  have h0: "0 \<le> h" using assms pos_range [of "cap_m s" k i] by simp
  have "\<exists>j. 0 \<le> j \<and> j < cap_m s \<and> int n = pos k' (cap_m s) j"
    if n: "n < length (table s)" and hd: "holds k' (table (put s h (Some k) v) ! n)" for n k'
  proof (cases "n = nat h")
    case True
    then have "k' = k" using n hd by (simp add: put_def holds_def)
    moreover have "int n = h" using True h0 by simp
    ultimately show ?thesis using assms by blast
  next
    case False
    then have "holds k' (table s ! n)" using hd by (simp add: put_def)
    then show ?thesis using assms(1) n by (simp add: probe_inv_def)
  qed
  then show ?thesis using w
    by (simp add: probe_inv_def well_formed_put cap_m_put length_put)
qed

lemma probe_inv_clear:
  assumes "probe_inv s"
  shows "probe_inv (s\<lparr>table := (table s)[n := Some (HashEntry None None)]\<rparr>)"
proof -
  have "holds k ((table s)[n := Some (HashEntry None None)] ! j) \<Longrightarrow> holds k (table s ! j)"
    if "j < length (table s)" for j k
    using that by (cases "j = n") (simp_all add: holds_def)
  then show ?thesis using assms by (simp add: probe_inv_def well_formed_def)
qed

lemma insert_loop_probe_inv:
  assumes "probe_inv s" "0 < cap_m s"
  shows "(\<forall>j \<in> set js. 0 \<le> j \<and> j < cap_m s) \<Longrightarrow> insert_loop s k v js = Inr (s', r) \<Longrightarrow>
         probe_inv s'"
proof (induction js)
  case Nil
  then show ?case using assms by simp
next
  case (Cons j js)
  have w: "well_formed s" using assms(1) by (simp add: probe_inv_def)
  have j: "0 \<le> j" "j < cap_m s" using Cons.prems(1) by simp_all
  have p: "probe_inv (put s (pos k (cap_m s) j) (Some k) v)"
    using assms(1) j by (rule probe_inv_put) simp
  show ?case using Cons assms(1) p
    by (auto simp: insert_loop_step [OF w assms(2)] simp del: insert_loop.simps
        split: if_splits)
qed

lemma insert_brent_loop_probe_inv:
  assumes "probe_inv s" "0 < cap_m s"
  shows "(\<forall>j \<in> set js. 0 \<le> j \<and> j < cap_m s) \<Longrightarrow> insert_brent_loop s k v js = Inr (s', r) \<Longrightarrow>
         probe_inv s'"
proof (induction js)
  case Nil
  then show ?case using assms by simp
next
  case (Cons j js)
  let ?m = "cap_m s"
  let ?h = "pos k ?m j"
  let ?x = "table s ! nat ?h"
  have w: "well_formed s" using assms(1) by (simp add: probe_inv_def)
  have j: "0 \<le> j" "j < ?m" using Cons.prems(1) by simp_all
  have hr: "0 \<le> ?h" "?h < ?m" using pos_range [OF assms(2), of k j] by simp_all
  have p0: "probe_inv (put s ?h (Some k) v)"
    using assms(1) j by (rule probe_inv_put) simp
  obtain j1 where j1: "0 \<le> j1" "j1 < ?m" "step_back ?h k ?m = pos k ?m j1"
    using step_back_on_sequence [OF j, of k] by blast
  have p1: "probe_inv (put s (step_back ?h k ?m) (Some k) v)"
    using assms(1) j1 by (rule probe_inv_put)
  have p2: "probe_inv (put (put s (step_back ?h (the (key (the ?x))) ?m) (key (the ?x))
      (val (the ?x))) ?h (Some k) v)" if nf: "\<not> free_slot ?x"
  proof -
    obtain e where e: "key (the ?x) = Some e" using not_free_key [OF nf] by blast
    have "holds e ?x" using nf e by (simp add: holds_iff)
    moreover have "nat ?h < length (table s)" using w hr by (simp add: well_formed_def)
    ultimately obtain i where i: "0 \<le> i" "i < ?m" "int (nat ?h) = pos e ?m i"
      using assms(1) unfolding probe_inv_def by blast
    then have "?h = pos e ?m i" using hr by simp
    then obtain j2 where j2: "0 \<le> j2" "j2 < ?m" "step_back ?h e ?m = pos e ?m j2"
      using step_back_on_sequence [OF i(1,2), of e] by auto
    have a: "probe_inv (put s (step_back ?h e ?m) (Some e) (val (the ?x)))"
      using assms(1) j2 by (rule probe_inv_put)
    have "probe_inv (put (put s (step_back ?h e ?m) (Some e) (val (the ?x))) ?h (Some k) v)"
      by (rule probe_inv_put [OF a, of j]) (simp_all add: cap_m_put j)
    then show ?thesis using e by simp
  qed
  show ?case using Cons assms(1) p0 p1 p2
    by (auto simp: insert_brent_loop_step [OF w assms(2)] Let_def
        simp del: insert_brent_loop.simps split: if_splits)
qed

lemma range_py_bounds: "\<forall>j \<in> set (range_py 0 m). 0 \<le> j \<and> j < m"
  by (simp add: range_py_def)

lemma apply_op_probe_inv:
  assumes "probe_inv s" "apply_op s c = Inr (s', r)"
  shows "probe_inv s'"
proof -
  have w: "well_formed s" using assms(1) by (simp add: probe_inv_def)
  show ?thesis
  proof (cases c)
    case (Insert k v)
    show ?thesis
    proof (cases "0 < cap_m s")
      case True
      then show ?thesis
        using assms Insert insert_loop_probe_inv [OF assms(1) True range_py_bounds]
        by (auto simp: insert_ht_def split: sum.splits)
    next
      case False
      then show ?thesis using assms Insert by (auto simp: insert_ht_def range_py_nil)
    qed
  next
    case (Insert_brent k v)
    show ?thesis
    proof (cases "0 < cap_m s")
      case True
      then show ?thesis
        using assms Insert_brent insert_brent_loop_probe_inv [OF assms(1) True range_py_bounds]
        by (auto simp: insert_brent_def split: sum.splits)
    next
      case False
      then show ?thesis using assms Insert_brent by (auto simp: insert_brent_def range_py_nil)
    qed
  next
    case (Retrieve k)
    then show ?thesis using assms by (auto split: sum.splits)
  next
    case (Delete k)
    obtain q where q: "get_position s k = Inr q" using get_position_result [OF w] by blast
    show ?thesis using assms Delete probe_inv_clear [OF assms(1)]
      by (auto simp: delete_eq [OF w q] split: if_splits)
  qed
qed

lemma run_probe_inv: "probe_inv s \<Longrightarrow> run s cs = Inr (s', rs) \<Longrightarrow> probe_inv s'"
proof (induction cs arbitrary: s s' rs)
  case Nil
  then show ?case by simp
next
  case (Cons c cs)
  from Cons.prems(2) obtain s1 r rs1 where 1: "apply_op s c = Inr (s1, r)"
      and 2: "run s1 cs = Inr (s', rs1)"
    by (auto split: sum.splits)
  have "probe_inv s1" using Cons.prems(1) 1 by (rule apply_op_probe_inv)
  then show ?case using 2 by (rule Cons.IH)
qed

lemma get_position_loop_finds:
  assumes "well_formed s" "0 < cap_m s"
  shows "j \<in> set js \<Longrightarrow> holds k (table s ! nat (pos k (cap_m s) j)) \<Longrightarrow>
         \<exists>q. get_position_loop s k js = Inr q \<and> 0 \<le> q \<and> q < cap_m s \<and>
              holds k (table s ! nat q)"
proof (induction js)
  case Nil
  then show ?case by simp
next
  case (Cons i js)
  show ?case using Cons pos_range [OF assms(2), of k i]
    by (auto simp: get_position_loop_step [OF assms] simp del: get_position_loop.simps)
qed

lemma present_key_found:
  assumes "probe_inv s" "key_present s k"
  shows "\<exists>q. get_position s k = Inr q \<and> 0 \<le> q \<and> q < cap_m s \<and> holds k (table s ! nat q)"
proof -
  have w: "well_formed s" using assms(1) by (simp add: probe_inv_def)
  obtain n where n: "n < length (table s)" "holds k (table s ! n)"
    using assms(2) unfolding key_present_def by (auto simp: in_set_conv_nth)
  then obtain i where i: "0 \<le> i" "i < cap_m s" "int n = pos k (cap_m s) i"
    using assms(1) unfolding probe_inv_def by blast
  have m: "0 < cap_m s" using i by simp
  have "i \<in> set (range_py 0 (cap_m s))" using i by (simp add: range_py_def)
  moreover have "holds k (table s ! nat (pos k (cap_m s) i))" using n i by (simp flip: i(3))
  ultimately show ?thesis
    unfolding get_position_def by (rule get_position_loop_finds [OF w m])
qed

lemma probe_inv_on_probe_sequence:
  assumes "probe_inv s"
  shows "on_probe_sequence (slots s) (cap_m s)"
proof -
  have w: "well_formed s" using assms by (simp add: probe_inv_def)
  have "\<exists>i \<in> set [0..cap_m s - 1]. p = spec_pos k (cap_m s) i"
    if p: "0 \<le> p" "p < cap_m s" and o: "slots s ! nat p = Occupied k v" for p k v
  proof -
    have "spec_has_key k (slot_of (table s ! nat p))" using o w p by (simp add: slots_at)
    then have "holds k (table s ! nat p)" by (simp add: spec_has_key_slot_of)
    moreover have "nat p < length (table s)" using w p by (simp add: well_formed_def)
    ultimately obtain i where "0 \<le> i" "i < cap_m s" "int (nat p) = pos k (cap_m s) i"
      using assms unfolding probe_inv_def by blast
    then show ?thesis using p by (auto simp: spec_pos_eq)
  qed
  then show ?thesis by (auto simp: on_probe_sequence_def split: slot.splits)
qed

lemma probe_inv_keys_retrievable:
  assumes "probe_inv s"
  shows "keys_retrievable s"
proof -
  have w: "well_formed s" using assms by (simp add: probe_inv_def)
  have "\<exists>q. get_position s k = Inr q \<and> q \<noteq> NOT_FOUND \<and> spec_has_key k (slots s ! nat q)"
    if p: "0 \<le> p" "p < cap_m s" and o: "slots s ! nat p = Occupied k v" for p k v
  proof -
    have "spec_has_key k (slot_of (table s ! nat p))" using o w p by (simp add: slots_at)
    then have "holds k (table s ! nat p)" by (simp add: spec_has_key_slot_of)
    moreover have "nat p < length (table s)" using w p by (simp add: well_formed_def)
    ultimately have "key_present s k" unfolding key_present_def using nth_mem by blast
    then obtain q where "get_position s k = Inr q" "0 \<le> q" "q < cap_m s"
        "holds k (table s ! nat q)"
      using present_key_found [OF assms] by blast
    then show ?thesis using w
      by (simp add: NOT_FOUND_def slots_at spec_has_key_slot_of)
  qed
  then show ?thesis
    by (fastforce simp: keys_retrievable_def split: slot.splits sum.splits)
qed

text \<open>
  Where every slot that holds a key has the value \<^verbatim>\<open>None\<close>, \<^verbatim>\<open>retrieve\<close> returns
  \<^verbatim>\<open>None\<close> for it, as for a key that no slot holds.
\<close>

lemma None_in_every_slot_reads_as_absent:
  assumes "run (HashTable_init m) cs = Inr (s, rs)" "stored_with_None s k"
    "\<not> key_present s k'"
  shows "retrieve s k = Inr None \<and> retrieve s k' = Inr None"
proof -
  have inv: "probe_inv s" using probe_inv_init assms(1) by (rule run_probe_inv)
  then have w: "well_formed s" by (simp add: probe_inv_def)
  have present: "key_present s k" using assms(2) by (simp add: stored_with_None_def)
  obtain q where q: "get_position s k = Inr q" "0 \<le> q" "q < cap_m s"
      "holds k (table s ! nat q)"
    using present_key_found [OF inv present] by blast
  have "table s ! nat q \<in> set (table s)" using w q by (simp add: well_formed_def)
  then have "val (the (table s ! nat q)) = None"
    using assms(2) q(4) by (simp add: stored_with_None_def)
  then have "retrieve s k = Inr None" using q by (simp add: retrieve_eq [OF w q(1)])
  moreover have "retrieve s k' = Inr None"
    using absent_get_position [OF w assms(3)] by (simp add: retrieve_eq [OF w])
  ultimately show ?thesis by simp
qed

section \<open>The claims\<close>

text \<open>
  C1: at most one slot in use holds a given key. The code breaks this: \<^verbatim>\<open>insert\<close> stops
  at the first free slot and does not look further along the probe sequence, so a key
  that sits behind a deleted entry is stored a second time. With capacity 7 the keys 0
  and 7 share the home slot 0; after key 0 is deleted, a second insertion of key 7 is
  accepted at slot 0 although slot 4 still holds key 7.
\<close>

theorem insert_duplicates_key_behind_tombstone:
  "run (HashTable_init 7)
     [Insert 0 (Some ''a''), Insert 7 (Some ''b''), Delete 0, Insert 7 (Some ''c'')] =
   Inr (\<lparr>table = [Some (HashEntry (Some 7) (Some ''c'')), None, None, None,
                  Some (HashEntry (Some 7) (Some ''b'')), None, None],
          cap_m = 7\<rparr>,
        [Index 0, Index 4, Index 0, Index 0])"
  by code_simp

text \<open>
  C2: after a successful \<^verbatim>\<open>insert(k, v)\<close> at index \<open>i\<close>, \<^verbatim>\<open>retrieve(k)\<close> gives \<open>v\<close>,
  \<^verbatim>\<open>delete(k)\<close> gives \<open>i\<close>, and then \<^verbatim>\<open>retrieve(k)\<close> finds nothing. In the run below
  the last insertion of key 7 succeeds at index 0, the retrieval gives its value and the
  deletion gives 0, but the final retrieval still finds the older entry of key 7.
\<close>

theorem round_trip_finds_older_entry:
  "run (HashTable_init 7)
     [Insert 0 (Some ''a''), Insert 7 (Some ''b''), Delete 0, Insert 7 (Some ''c''),
      Retrieve 7, Delete 7, Retrieve 7] =
   Inr (\<lparr>table = [Some (HashEntry None None), None, None, None,
                  Some (HashEntry (Some 7) (Some ''b'')), None, None],
          cap_m = 7\<rparr>,
        [Index 0, Index 4, Index 0, Index 0, Value (Some ''c''), Index 0, Value (Some ''b'')])"
  by code_simp

text \<open>
  C3: \<^verbatim>\<open>insert(k, v)\<close> examines \<open>pos(k,i) = (h1(k,m) - i * h2(k,m)) mod m\<close> for
  \<open>i = 0 .. m-1\<close> in that order, with \<open>h1(k,m) = k mod m\<close> and \<open>h2(k,m) = 1 + (k mod (m-2))\<close>
  for \<open>m > 2\<close>, \<open>h2 = 0\<close> for \<open>m = 2\<close>; it writes the entry into the first free slot and
  returns that index, and returns NOT_FOUND when it first meets the key or when the
  attempts are exhausted. The call of the code returns what \<open>spec_insert\<close> gives on the
  slots of the table, and leaves those slots behind.
\<close>

theorem insert_follows_probe_sequence:
  assumes "well_formed s"
  shows "\<exists>s'. insert_ht s k v = Inr (s', snd (spec_insert (slots s) (cap_m s) k v)) \<and>
           slots s' = fst (spec_insert (slots s) (cap_m s) k v) \<and> cap_m s' = cap_m s"
proof (cases "0 < cap_m s")
  case True
  then show ?thesis
    unfolding insert_ht_def spec_insert_def range_py_def
    using assms by (rule_tac insert_loop_find)
next
  case False
  then show ?thesis
    by (simp add: insert_ht_def spec_insert_def range_py_def NOT_FOUND_def)
qed

theorem insert_follows_probe_sequence_witness:
  "well_formed \<lparr>table = [Some (HashEntry (Some 0) (Some ''a'')), None, None, None, None, None,
                        None], cap_m = 7\<rparr> \<and>
   (\<exists>s'. insert_ht \<lparr>table = [Some (HashEntry (Some 0) (Some ''a'')), None, None, None, None,
                              None, None], cap_m = 7\<rparr> 7 (Some ''b'') = Inr (s', 4) \<and>
      slots s' = [Occupied 0 (Some ''a''), Empty, Empty, Empty, Occupied 7 (Some ''b''), Empty,
                  Empty])"
proof -
  let ?s = "\<lparr>table = [Some (HashEntry (Some 0) (Some ''a'')), None, None, None, None, None,
                      None], cap_m = 7\<rparr>"
  have w: "well_formed ?s" by (simp add: well_formed_def)
  have e: "spec_insert (slots ?s) (cap_m ?s) 7 (Some ''b'') =
      ([Occupied 0 (Some ''a''), Empty, Empty, Empty, Occupied 7 (Some ''b''), Empty, Empty], 4)"
    by code_simp
  show ?thesis using w insert_follows_probe_sequence [OF w, of 7 "Some ''b''"] e by auto
qed

text \<open>
  C4: at an attempt of \<^verbatim>\<open>insert_brent(k, v)\<close> whose slot \<open>hash = pos(k,i)\<close> is in use
  with another key, a free \<open>alt1 = (hash - h2(k,m)) mod m\<close> receives the entry and is
  returned; otherwise a free \<open>alt2 = (hash - h2(existing,m)) mod m\<close> receives the key
  and the value of the occupant, \<open>hash\<close> receives the entry and is returned; otherwise
  the next attempt follows. A free \<open>hash\<close> receives the entry, the key at \<open>hash\<close> gives
  NOT_FOUND, and so does the end of the attempts. The call of the code returns what
  \<open>spec_insert_brent\<close> gives on the slots of the table, and leaves those slots behind.
\<close>

theorem insert_brent_follows_specification:
  assumes "well_formed s"
  shows "\<exists>s'. insert_brent s k v =
             Inr (s', snd (spec_insert_brent (slots s) (cap_m s) k v)) \<and>
           slots s' = fst (spec_insert_brent (slots s) (cap_m s) k v) \<and> cap_m s' = cap_m s"
proof (cases "0 < cap_m s")
  case True
  then show ?thesis
    unfolding insert_brent_def spec_insert_brent_def range_py_def
    using assms by (rule_tac insert_brent_loop_spec)
next
  case False
  then show ?thesis
    by (simp add: insert_brent_def spec_insert_brent_def range_py_def NOT_FOUND_def)
qed

theorem insert_brent_follows_specification_witness:
  "well_formed \<lparr>table = [Some (HashEntry (Some 0) (Some ''a'')), None, None, None,
                        Some (HashEntry (Some 4) (Some ''c'')), None, None], cap_m = 7\<rparr> \<and>
   (\<exists>s'. insert_brent \<lparr>table = [Some (HashEntry (Some 0) (Some ''a'')), None, None, None,
                                 Some (HashEntry (Some 4) (Some ''c'')), None, None],
                        cap_m = 7\<rparr> 7 (Some ''b'') = Inr (s', 0) \<and>
      slots s' = [Occupied 7 (Some ''b''), Empty, Empty, Empty, Occupied 4 (Some ''c''), Empty,
                  Occupied 0 (Some ''a'')])"
proof -
  let ?s = "\<lparr>table = [Some (HashEntry (Some 0) (Some ''a'')), None, None, None,
                      Some (HashEntry (Some 4) (Some ''c'')), None, None], cap_m = 7\<rparr>"
  have w: "well_formed ?s" by (simp add: well_formed_def)
  have e: "spec_insert_brent (slots ?s) (cap_m ?s) 7 (Some ''b'') =
      ([Occupied 7 (Some ''b''), Empty, Empty, Empty, Occupied 4 (Some ''c''), Empty,
        Occupied 0 (Some ''a'')], 0)"
    by code_simp
  show ?thesis using w insert_brent_follows_specification [OF w, of 7 "Some ''b''"] e by auto
qed

text \<open>
  C5: \<^verbatim>\<open>get_position(k)\<close> scans \<open>pos(k,i)\<close> for \<open>i = 0 .. m-1\<close>, passes over every free
  slot, and returns the index of the first slot in use with the key \<open>k\<close>, or NOT_FOUND
  when there is none; \<^verbatim>\<open>retrieve\<close> and \<^verbatim>\<open>delete\<close> act on that index.
\<close>

theorem get_position_scans_whole_sequence:
  assumes "well_formed s"
  shows "get_position s k = Inr (spec_get_position (slots s) (cap_m s) k) \<and>
         retrieve s k = Inr (spec_retrieve (slots s) (cap_m s) k) \<and>
         (\<exists>s'. delete s k = Inr (s', snd (spec_delete (slots s) (cap_m s) k)) \<and>
            slots s' = fst (spec_delete (slots s) (cap_m s) k) \<and> cap_m s' = cap_m s)"
proof -
  let ?p = "spec_get_position (slots s) (cap_m s) k"
  have g: "get_position s k = Inr ?p" using assms by (rule get_position_spec)
  have p: "?p = - 1 \<or> 0 \<le> ?p \<and> ?p < cap_m s \<and> holds k (table s ! nat ?p)"
    using get_position_result [OF assms, of k] g by simp
  have v: "?p \<noteq> - 1 \<Longrightarrow> spec_value (slots s ! nat ?p) = val (the (table s ! nat ?p))"
    using p assms by (auto simp: slots_at slot_of_def holds_def split: option.splits)
  have r: "retrieve s k = Inr (spec_retrieve (slots s) (cap_m s) k)"
    using v by (simp add: retrieve_eq [OF assms g] spec_retrieve_def NOT_FOUND_def)
  have d: "slots (s\<lparr>table := (table s)[nat ?p := Some (HashEntry None None)]\<rparr>) =
      (slots s)[nat ?p := Tombstone]"
    by (simp add: slots_def map_update slot_of_def)
  show ?thesis using g r d
    by (simp add: delete_eq [OF assms g] spec_delete_def NOT_FOUND_def)
qed

theorem get_position_scans_whole_sequence_witness:
  "well_formed \<lparr>table = [Some (HashEntry None None), None, None, None,
                        Some (HashEntry (Some 7) (Some ''b'')), None, None], cap_m = 7\<rparr> \<and>
   get_position \<lparr>table = [Some (HashEntry None None), None, None, None,
                         Some (HashEntry (Some 7) (Some ''b'')), None, None], cap_m = 7\<rparr> 7 =
     Inr 4 \<and>
   retrieve \<lparr>table = [Some (HashEntry None None), None, None, None,
                     Some (HashEntry (Some 7) (Some ''b'')), None, None], cap_m = 7\<rparr> 7 =
     Inr (Some ''b'') \<and>
   (\<exists>s'. delete \<lparr>table = [Some (HashEntry None None), None, None, None,
                           Some (HashEntry (Some 7) (Some ''b'')), None, None], cap_m = 7\<rparr> 7 =
            Inr (s', 4) \<and>
      slots s' = [Tombstone, Empty, Empty, Empty, Tombstone, Empty, Empty])"
proof -
  let ?s = "\<lparr>table = [Some (HashEntry None None), None, None, None,
                      Some (HashEntry (Some 7) (Some ''b'')), None, None], cap_m = 7\<rparr>"
  have w: "well_formed ?s" by (simp add: well_formed_def)
  have g: "spec_get_position (slots ?s) (cap_m ?s) 7 = 4" by code_simp
  have r: "spec_retrieve (slots ?s) (cap_m ?s) 7 = Some ''b''" by code_simp
  have d: "spec_delete (slots ?s) (cap_m ?s) 7 =
      ([Tombstone, Empty, Empty, Empty, Tombstone, Empty, Empty], 4)"
    by code_simp
  show ?thesis using w get_position_scans_whole_sequence [OF w, of 7] g r d by auto
qed

text \<open>
  C6: an insertion (plain or Brent) that returns \<open>- 1\<close> leaves the whole table as it
  was, and the two insertions and \<^verbatim>\<open>delete\<close> change neither \<^verbatim>\<open>_m\<close> nor the number of
  slots (\<^verbatim>\<open>retrieve\<close> assigns nothing at all).
\<close>

theorem failed_insertion_changes_nothing:
  assumes "well_formed s"
  shows "(\<forall>s'. insert_ht s k v = Inr (s', - 1) \<longrightarrow> s' = s) \<and>
         (\<forall>s'. insert_brent s k v = Inr (s', - 1) \<longrightarrow> s' = s) \<and>
         (\<forall>s' r. insert_ht s k v = Inr (s', r) \<or> insert_brent s k v = Inr (s', r) \<or>
                   delete s k = Inr (s', r) \<longrightarrow>
                 cap_m s' = cap_m s \<and> length (table s') = length (table s))"
  using insert_ht_result [OF assms, of k v] insert_brent_result [OF assms, of k v]
    delete_result [OF assms, of k]
  by auto

theorem failed_insertion_changes_nothing_witness:
  "well_formed \<lparr>table = [Some (HashEntry (Some 5) (Some ''a''))], cap_m = 1\<rparr> \<and>
   insert_ht \<lparr>table = [Some (HashEntry (Some 5) (Some ''a''))], cap_m = 1\<rparr> 5 (Some ''b'') =
     Inr (\<lparr>table = [Some (HashEntry (Some 5) (Some ''a''))], cap_m = 1\<rparr>, - 1) \<and>
   insert_brent \<lparr>table = [Some (HashEntry (Some 5) (Some ''a''))], cap_m = 1\<rparr> 6 (Some ''b'') =
     Inr (\<lparr>table = [Some (HashEntry (Some 5) (Some ''a''))], cap_m = 1\<rparr>, - 1)"
proof -
  let ?s = "\<lparr>table = [Some (HashEntry (Some 5) (Some ''a''))], cap_m = 1\<rparr>"
  have w: "well_formed ?s" by (simp add: well_formed_def)
  have 1: "insert_ht ?s 5 (Some ''b'') = Inr (?s, - 1)" by code_simp
  have 2: "insert_brent ?s 6 (Some ''b'') = Inr (?s, - 1)" by code_simp
  show ?thesis
    using w 1 2 failed_insertion_changes_nothing [OF w, of 5 "Some ''b''"] by simp
qed

text \<open>
  C7: when no slot in use holds the key \<open>k\<close>, \<^verbatim>\<open>delete(k)\<close> returns \<open>- 1\<close> and the table
  after the call is the table before it (so the same keys can be retrieved), and
  \<^verbatim>\<open>retrieve(k)\<close>, which assigns nothing, returns \<^verbatim>\<open>None\<close>.
\<close>

theorem delete_absent_key_changes_nothing:
  assumes "well_formed s" "\<not> key_present s k"
  shows "delete s k = Inr (s, - 1) \<and> retrieve s k = Inr None"
  using assms absent_get_position [OF assms]
  by (simp add: delete_eq retrieve_eq)

theorem delete_absent_key_changes_nothing_witness:
  "well_formed \<lparr>table = [None, Some (HashEntry (Some 4) (Some ''a'')), None], cap_m = 3\<rparr> \<and>
   \<not> key_present \<lparr>table = [None, Some (HashEntry (Some 4) (Some ''a'')), None], cap_m = 3\<rparr> 7 \<and>
   delete \<lparr>table = [None, Some (HashEntry (Some 4) (Some ''a'')), None], cap_m = 3\<rparr> 7 =
     Inr (\<lparr>table = [None, Some (HashEntry (Some 4) (Some ''a'')), None], cap_m = 3\<rparr>, - 1) \<and>
   retrieve \<lparr>table = [None, Some (HashEntry (Some 4) (Some ''a'')), None], cap_m = 3\<rparr> 7 =
     Inr None"
proof -
  let ?s = "\<lparr>table = [None, Some (HashEntry (Some 4) (Some ''a'')), None], cap_m = 3\<rparr>"
  have w: "well_formed ?s" by (simp add: well_formed_def)
  have a: "\<not> key_present ?s 7" by (simp add: key_present_def holds_def)
  show ?thesis using w a delete_absent_key_changes_nothing [OF w a] by simp
qed

text \<open>
  C8: for every capacity \<open>m \<ge> 0\<close>, the degenerate capacities 0, 1 and 2 included, no
  sequence of calls of \<^verbatim>\<open>insert\<close>, \<^verbatim>\<open>insert_brent\<close>, \<^verbatim>\<open>retrieve\<close> and \<^verbatim>\<open>delete\<close> with
  integer keys raises an exception (a modulus by zero among them): every call returns a
  value. On a table of capacity 0 every call returns its failure value, \<open>- 1\<close> or \<^verbatim>\<open>None\<close>.
\<close>

theorem no_call_raises:
  assumes "0 \<le> m"
  shows "(\<exists>s rs. run (HashTable_init m) cs = Inr (s, rs) \<and> length rs = length cs) \<and>
         run (HashTable_init 0) cs = Inr (HashTable_init 0, map failure cs)"
  using run_result [OF well_formed_init, of m cs] run_unusable [of "HashTable_init 0" cs]
  by (auto simp: HashTable_init_def)

theorem no_call_raises_witness:
  "(0::int) \<le> 2 \<and>
   (\<exists>s rs. run (HashTable_init 2)
       [Insert 4 (Some ''a''), Insert_brent 6 None, Retrieve 6, Delete 4, Delete 9] = Inr (s, rs) \<and>
     length rs = 5)"
  using no_call_raises [of 2 "[Insert 4 (Some ''a''), Insert_brent 6 None, Retrieve 6, Delete 4, Delete 9]"]
  by (simp del: run.simps add: eval_nat_numeral)

text \<open>
  C9: in every table reached from a fresh one by calls of the four methods, every
  Occupied slot lies on the probe sequence of its own key: an index \<open>p\<close> that holds
  Occupied(k, v) is \<open>(h1(k,m) - i * h2(k,m)) mod m\<close> for some \<open>i\<close> of \<open>0 .. m-1\<close>. This
  covers the entry that \<^verbatim>\<open>insert_brent\<close> moves one step along its own sequence;
  \<^verbatim>\<open>get_position\<close> therefore finds every key of an Occupied slot.
\<close>

theorem entries_stay_on_probe_sequence:
  assumes "run (HashTable_init m) cs = Inr (s, rs)"
  shows "on_probe_sequence (slots s) (cap_m s) \<and> keys_retrievable s"
proof -
  have "probe_inv s" using probe_inv_init assms by (rule run_probe_inv)
  then show ?thesis
    by (simp add: probe_inv_on_probe_sequence probe_inv_keys_retrievable)
qed

theorem entries_stay_on_probe_sequence_witness:
  "run (HashTable_init 7) [Insert 0 (Some ''a''), Insert 4 (Some ''c''), Insert_brent 7 None] =
     Inr (\<lparr>table = [Some (HashEntry (Some 7) None), None, None, None,
                    Some (HashEntry (Some 4) (Some ''c'')), None,
                    Some (HashEntry (Some 0) (Some ''a''))], cap_m = 7\<rparr>,
          [Index 0, Index 4, Index 0]) \<and>
   on_probe_sequence
     (slots \<lparr>table = [Some (HashEntry (Some 7) None), None, None, None,
                      Some (HashEntry (Some 4) (Some ''c'')), None,
                      Some (HashEntry (Some 0) (Some ''a''))], cap_m = 7\<rparr>) 7 \<and>
   keys_retrievable
     \<lparr>table = [Some (HashEntry (Some 7) None), None, None, None,
               Some (HashEntry (Some 4) (Some ''c'')), None,
               Some (HashEntry (Some 0) (Some ''a''))], cap_m = 7\<rparr>"
proof -
  let ?s = "\<lparr>table = [Some (HashEntry (Some 7) None), None, None, None,
                      Some (HashEntry (Some 4) (Some ''c'')), None,
                      Some (HashEntry (Some 0) (Some ''a''))], cap_m = 7\<rparr>"
  have r: "run (HashTable_init 7)
      [Insert 0 (Some ''a''), Insert 4 (Some ''c''), Insert_brent 7 None] =
      Inr (?s, [Index 0, Index 4, Index 0])"
    by code_simp
  show ?thesis using r entries_stay_on_probe_sequence [OF r] by simp
qed

text \<open>
  C10: \<^verbatim>\<open>retrieve(k)\<close> returns \<^verbatim>\<open>None\<close> for every key stored with the value \<^verbatim>\<open>None\<close>,
  as it does for a key that is absent. The code breaks this where \<^verbatim>\<open>insert\<close> has stored
  the key a second time (the defect of C1): in the run below slot 4 holds key 7 with the
  value \<^verbatim>\<open>None\<close>, and \<^verbatim>\<open>retrieve(7)\<close> returns the value of the later entry in slot 0.
\<close>

theorem retrieve_misses_stored_None:
  "run (HashTable_init 7)
     [Insert 0 (Some ''a''), Insert 7 None, Delete 0, Insert 7 (Some ''c''), Retrieve 7] =
   Inr (\<lparr>table = [Some (HashEntry (Some 7) (Some ''c'')), None, None, None,
                  Some (HashEntry (Some 7) None), None, None],
          cap_m = 7\<rparr>,
        [Index 0, Index 4, Index 0, Index 0, Value (Some ''c'')])"
  by code_simp

end
